theory Spec2Isabelle
  imports Main "HOL-Library.Word" "HOL-Library.AList"
begin

section \<open>The searcher command: fetching archives (cmd/searcher/main.go)\<close>

subsection \<open>Errors and the remote git service\<close>

text \<open>
  A Go \<open>error\<close> value seen by \<open>fetchTar\<close> is either a \<open>badRequestError\<close> of this package
  (a struct holding a message, whose method \<open>BadRequest\<close> answers true) or an error value
  handed back by the gitserver client. The latter come from packages outside this
  command, so their type is left as the parameter \<open>'e\<close>.
\<close>

datatype 'e error = badRequestError string | Upstream 'e

fun BadRequest :: "'e error \<Rightarrow> bool" where
  "BadRequest (badRequestError msg) = True"
| "BadRequest (Upstream e) = False"

text \<open>
  The command handed to gitserver: the argument vector, the repository it runs in and
  the revision gitserver has to make sure of first.
\<close>

record Cmd =
  Args :: "string list"
  Repo :: string
  EnsureRevision :: string

text \<open>
  What \<open>fetchTar\<close> uses from the packages \<open>gitserver\<close> and \<open>vcs\<close>:
  \<open>gitserver.StdoutReader\<close> runs a command remotely and gives a reader or an error,
  \<open>vcs.IsRepoNotExist\<close> recognises the errors that say the repository does not exist,
  \<open>vcs.ErrRevisionNotFound\<close> is the error value for an unknown revision, and
  \<open>ErrorString\<close> is the method \<open>Error()\<close> of the upstream errors.
\<close>

record ('e, 'r) gitserver =
  StdoutReader :: "Cmd \<Rightarrow> 'e + 'r"
  IsRepoNotExist :: "'e \<Rightarrow> bool"
  ErrRevisionNotFound :: 'e
  ErrorString :: "'e \<Rightarrow> string"

text \<open>\<open>strings.HasPrefix\<close> of the Go standard library.\<close>

definition HasPrefix :: "string \<Rightarrow> string \<Rightarrow> bool" where
  "HasPrefix s prefix = (length s \<ge> length prefix \<and> take (length prefix) s = prefix)"

subsection \<open>fetchTar\<close>

text \<open>
  \<open>fetchTar\<close> returns its result together with the list of commands it issued to
  gitserver, in order. The tracing span of the source only records tags and is left out.
\<close>

definition fetchTar ::
  "('e, 'r) gitserver \<Rightarrow> string \<Rightarrow> string \<Rightarrow> ('e error + 'r) \<times> Cmd list" where
  "fetchTar gs repo commit =
    (if HasPrefix commit ''-''
     then (Inl (badRequestError ''invalid git revision spec (begins with '-')''), [])
     else
       let cmd = \<lparr>Args = [''git'', ''archive'', ''--format=tar'', commit],
                  Repo = repo, EnsureRevision = commit\<rparr>
       in (case StdoutReader gs cmd of
             Inl err \<Rightarrow>
               (Inl (if IsRepoNotExist gs err \<or> err = ErrRevisionNotFound gs
                     then badRequestError (ErrorString gs err)
                     else Upstream err), [cmd])
           | Inr r \<Rightarrow> (Inr r, [cmd])))"

text \<open>
  A small concrete gitserver for the evaluated instances below: upstream errors are
  numbered, 0 stands for a missing repository and 1 for an unknown revision; the
  repository \<open>''gone''\<close> does not exist, the revision \<open>''nope''\<close> is unknown, the
  repository \<open>''down''\<close> cannot be reached, anything else yields a reader (the
  revision itself).
\<close>

definition demo_gitserver :: "(nat, string) gitserver" where
  "demo_gitserver =
    \<lparr>StdoutReader = (\<lambda>c. if Repo c = ''gone'' then Inl 0
                          else if EnsureRevision c = ''nope'' then Inl 1
                          else if Repo c = ''down'' then Inl 2
                          else Inr (EnsureRevision c)),
     IsRepoNotExist = (\<lambda>e. e = 0),
     ErrRevisionNotFound = 1,
     ErrorString = (\<lambda>e. if e = 0 then ''repository does not exist''
                         else if e = 1 then ''revision not found''
                         else ''connection refused'')\<rparr>"

section \<open>The searcher command: start-up (function main)\<close>

subsection \<open>strconv.ParseInt at base 10 and 64 bits\<close>

text \<open>
  \<open>main\<close> reads the cache size with \<open>strconv.ParseInt(cacheSizeMB, 10, 64)\<close> of the Go
  standard library. The function is written out here for base 10 and 64 bits as the
  library has it: the empty string is a syntax error; one leading sign is taken off;
  \<open>ParseUint\<close> then reads the rest byte by byte, where a byte that is no decimal digit is
  a syntax error and a value that leaves the unsigned 64-bit range a range error; at
  the end the magnitude is checked against the signed range.
\<close>

datatype NumError = ErrSyntax | ErrRange

fun ParseUint_loop :: "nat \<Rightarrow> string \<Rightarrow> NumError + nat" where
  "ParseUint_loop n [] = Inr n"
| "ParseUint_loop n (c # cs) =
    (if 48 \<le> (of_char c :: nat) \<and> (of_char c :: nat) \<le> 57
     then (let d = (of_char c :: nat) - 48 in
           if n * 10 + d \<ge> 2 ^ 64 then Inl ErrRange
           else ParseUint_loop (n * 10 + d) cs)
     else Inl ErrSyntax)"

definition ParseUint :: "string \<Rightarrow> NumError + nat" where
  "ParseUint s = (if s = [] then Inl ErrSyntax else ParseUint_loop 0 s)"

definition ParseInt :: "string \<Rightarrow> NumError + 64 word" where
  "ParseInt s =
    (if s = [] then Inl ErrSyntax
     else
       let neg = (hd s = CHR ''-'');
           s1 = (if hd s = CHR ''+'' \<or> hd s = CHR ''-'' then tl s else s)
       in (case ParseUint s1 of
             Inl err \<Rightarrow> Inl err
           | Inr un \<Rightarrow>
               if \<not> neg \<and> un \<ge> 2 ^ 63 then Inl ErrRange
               else if neg \<and> un > 2 ^ 63 then Inl ErrRange
               else Inr (if neg then - (of_nat un) else of_nat un)))"

subsection \<open>main\<close>

text \<open>
  The store that \<open>main\<close> configures. \<open>MaxCacheSizeBytes\<close> is an \<open>int64\<close>;
  \<open>MaxConcurrentFetchTar\<close> is ten times the length of a slice held in memory, which
  stays far below the range of \<open>int\<close>, so it is a plain integer here. \<open>Path\<close> keeps the two
  arguments of \<open>filepath.Join\<close>. The field \<open>FetchTar\<close> is always the function
  \<open>fetchTar\<close> above and is not repeated in the record.
\<close>

record Store =
  Path :: "string \<times> string"
  MaxCacheSizeBytes :: "64 word"
  MaxConcurrentFetchTar :: int

text \<open>
  What \<open>main\<close> does, in order, as a list of events. \<open>log_Fatalf\<close> and \<open>log_Fatal\<close> end the
  process, so nothing follows them. Tracing and log filtering touch none of the values
  below and are left out.
\<close>

datatype event =
    debugserver_Start string
  | log_Fatalf string NumError
  | Store_Start Store
  | go_shutdownOnSIGINT
  | ListenAndServe string
  | log_Fatal

text \<open>
  The arguments are the three environment settings, the addresses of
  \<open>gitserver.DefaultClient\<close>, and whether \<open>ListenAndServe\<close> came back with
  \<open>http.ErrServerClosed\<close>.
\<close>

definition main :: "string \<Rightarrow> string \<Rightarrow> string \<Rightarrow> string list \<Rightarrow> bool \<Rightarrow> event list" where
  "main profBindAddr cacheDir cacheSizeMB Addrs serverClosed =
    (if profBindAddr \<noteq> [] then [debugserver_Start profBindAddr] else []) @
    (case ParseInt cacheSizeMB of
       Inl err \<Rightarrow> [log_Fatalf cacheSizeMB err]
     | Inr i \<Rightarrow>
         let cacheSizeBytes = i * 1000 * 1000;
             store = \<lparr>Path = (cacheDir, ''searcher-archives''),
                      MaxCacheSizeBytes = cacheSizeBytes,
                      MaxConcurrentFetchTar = 10 * int (length Addrs)\<rparr>
         in [Store_Start store, go_shutdownOnSIGINT, ListenAndServe '':3181''] @
            (if serverClosed then [] else [log_Fatal]))"

text \<open>Reading a run of \<open>main\<close>: the store that was started, and whether the server listened.\<close>

fun started_store :: "event list \<Rightarrow> Store option" where
  "started_store [] = None"
| "started_store (Store_Start st # evs) = Some st"
| "started_store (ev # evs) = started_store evs"

fun listened :: "event list \<Rightarrow> bool" where
  "listened [] = False"
| "listened (ListenAndServe addr # evs) = True"
| "listened (ev # evs) = listened evs"

definition configured_max_bytes :: "event list \<Rightarrow> int option" where
  "configured_max_bytes evs = map_option (\<lambda>st. sint (MaxCacheSizeBytes st)) (started_store evs)"

definition configured_max_fetches :: "event list \<Rightarrow> int option" where
  "configured_max_fetches evs = map_option MaxConcurrentFetchTar (started_store evs)"

subsection \<open>shutdownOnSIGINT and the end of the process\<close>

text \<open>\<open>time.Second\<close>: a \<open>time.Duration\<close> counts nanoseconds.\<close>

definition Second :: nat where
  "Second = 1000000000"

text \<open>
  What \<open>shutdownOnSIGINT\<close> does, as events with the time at which they happen, in
  nanoseconds since the interrupt arrived; the statements themselves take no time, and
  the registration with \<open>signal.Notify\<close>, which comes before the interrupt, is given
  the time 0 as well.
  \<open>s.Shutdown\<close> belongs to \<open>net/http\<close> and is a parameter: given the timeout of the
  context it is called with, it tells when it returns and whether it returns an error.
\<close>

datatype sigint_event =
    signal_Notify
  | interrupt_received
  | context_WithTimeout nat
  | server_Shutdown
  | Shutdown_returned bool
  | log_Fatal_shutdown

definition shutdownOnSIGINT :: "(nat \<Rightarrow> nat \<times> bool) \<Rightarrow> (nat \<times> sigint_event) list" where
  "shutdownOnSIGINT srvShutdown =
    (let timeout = 10 * Second;
         (t, failed) = srvShutdown timeout
     in [(0, signal_Notify), (0, interrupt_received), (0, context_WithTimeout timeout),
         (0, server_Shutdown), (t, Shutdown_returned failed)] @
        (if failed then [(t, log_Fatal_shutdown)] else []))"

text \<open>
  \<open>http.Server.Shutdown\<close> as \<open>net/http\<close> documents it: it closes the listeners, waits
  until the requests in flight are done and returns without error, or, when the
  context expires first, returns the error of the context. The first argument is the
  time the requests in flight still need; the interval at which \<open>Shutdown\<close> polls for
  idle connections is left out.
\<close>

definition Shutdown :: "nat \<Rightarrow> nat \<Rightarrow> nat \<times> bool" where
  "Shutdown drain timeout = (if drain \<le> timeout then (drain, False) else (timeout, True))"

text \<open>
  The two ways the process ends after an interrupt. The goroutine \<open>shutdownOnSIGINT\<close>
  ends it with \<open>log.Fatal\<close>. The goroutine \<open>main\<close> sits in \<open>ListenAndServe\<close>, which, as
  \<open>net/http\<close> documents, returns \<open>http.ErrServerClosed\<close> as soon as \<open>Shutdown\<close> is
  called; \<open>main\<close> has nothing after that (see its definition above, with
  \<open>serverClosed\<close> true), so it returns there and then, and a Go program ends when its
  \<open>main\<close> returns, without waiting for other goroutines.
\<close>

fun main_returns_at :: "(nat \<times> sigint_event) list \<Rightarrow> nat option" where
  "main_returns_at [] = None"
| "main_returns_at ((t, server_Shutdown) # evs) = Some t"
| "main_returns_at (ev # evs) = main_returns_at evs"

fun fatal_at :: "(nat \<times> sigint_event) list \<Rightarrow> nat option" where
  "fatal_at [] = None"
| "fatal_at ((t, log_Fatal_shutdown) # evs) = Some t"
| "fatal_at (ev # evs) = fatal_at evs"

text \<open>
  When the process ends, given the time the requests in flight at the interrupt still
  need: at the earlier of the two ends; and whether those requests were finished by then.
\<close>

definition process_ends_at :: "nat \<Rightarrow> nat option" where
  "process_ends_at drain =
    (let evs = shutdownOnSIGINT (Shutdown drain)
     in (case (main_returns_at evs, fatal_at evs) of
           (Some m, Some f) \<Rightarrow> Some (min m f)
         | (Some m, None) \<Rightarrow> Some m
         | (None, Some f) \<Rightarrow> Some f
         | (None, None) \<Rightarrow> None))"

definition requests_drained :: "nat \<Rightarrow> bool" where
  "requests_drained drain =
    (case process_ends_at drain of None \<Rightarrow> True | Some e \<Rightarrow> drain \<le> e)"

section \<open>The archive cache (package cmd/searcher/search, type Store)\<close>

text \<open>
  Modelled from the spec: the store that \<open>main\<close> configures and starts (\<open>search.Store\<close>:
  the cache index, the fetch coordinators, release and eviction) is not among the
  source files; what follows is written from sections 3, 4.2 and 5 of the
  specification. Every operation is one of the short exclusive sections on the
  cache index that section 5 describes, so a concurrent execution is a sequence of
  operations, in any order the scheduler chooses. The eviction pass is an operation of
  its own, which may run at any point, in particular after an insertion. The bound
  on the number of fetches running at once delays the start of a fetch and is not
  part of the model.
\<close>

type_synonym ArchiveKey = "string \<times> string"

type_synonym requester = nat

text \<open>
  Modelled from the spec: a CacheEntry (section 3) without its key, which is the key
  of the index.
\<close>

record CacheEntry =
  location :: string
  sizeBytes :: nat
  lastAccess :: nat
  refCount :: nat

text \<open>
  Modelled from the spec: what a requester observes, the view of the extracted
  archive (named by its location) or the error of the fetch.
\<close>

datatype outcome = GotView string | GotError string

text \<open>
  Modelled from the spec: the state shared by all executions (section 5): the map
  from keys to entries, the map of fetches in flight with their waiters in arrival
  order, and the total size counter, with the configured maximum and a clock for
  the access timestamps. \<open>fetches\<close> records every fetch that was started and
  \<open>outcomes\<close> every outcome handed to a requester, both in order.
\<close>

record Cache =
  index :: "(ArchiveKey \<times> CacheEntry) list"
  inflight :: "(ArchiveKey \<times> requester list) list"
  totalSize :: nat
  maxSize :: nat
  clock :: nat
  fetches :: "ArchiveKey list"
  outcomes :: "(requester \<times> ArchiveKey \<times> outcome) list"

definition init :: "nat \<Rightarrow> Cache" where
  "init m = \<lparr>index = [], inflight = [], totalSize = 0, maxSize = m, clock = 0,
             fetches = [], outcomes = []\<rparr>"

text \<open>
  Modelled from the spec: the deterministic path derived from the key. The
  specification fixes no format; any injective one does.
\<close>

definition path_of :: "ArchiveKey \<Rightarrow> string" where
  "path_of k = fst k @ ''@'' @ snd k"

text \<open>
  Modelled from the spec: acquire (section 4.2). On a hit the reference count goes
  up and the requester gets the view at once. On a miss the requester registers the
  coordinator for the key and the fetch starts, unless a coordinator is there
  already: then the requester joins its waiters.
\<close>

definition acquire :: "requester \<Rightarrow> ArchiveKey \<Rightarrow> Cache \<Rightarrow> Cache" where
  "acquire r k c =
    (case map_of (index c) k of
       Some e \<Rightarrow>
         c\<lparr>index := AList.update k (e\<lparr>refCount := refCount e + 1, lastAccess := clock c\<rparr>) (index c),
           clock := clock c + 1,
           outcomes := outcomes c @ [(r, k, GotView (location e))]\<rparr>
     | None \<Rightarrow>
         (case map_of (inflight c) k of
            None \<Rightarrow> c\<lparr>inflight := AList.update k [r] (inflight c),
                       fetches := fetches c @ [k]\<rparr>
          | Some ws \<Rightarrow> c\<lparr>inflight := AList.update k (ws @ [r]) (inflight c)\<rparr>))"

text \<open>
  Modelled from the spec: the fetch in flight for a key succeeds with an archive of
  the given size. A new entry is inserted, held once by every waiter, the size
  counter is updated, all waiters get the view and the coordinator is removed.
\<close>

definition fetch_success :: "ArchiveKey \<Rightarrow> nat \<Rightarrow> Cache \<Rightarrow> Cache" where
  "fetch_success k sz c =
    (case map_of (inflight c) k of
       None \<Rightarrow> c
     | Some ws \<Rightarrow>
         c\<lparr>index := AList.update k \<lparr>location = path_of k, sizeBytes = sz,
                                      lastAccess = clock c, refCount = length ws\<rparr> (index c),
           totalSize := totalSize c + sz,
           clock := clock c + 1,
           outcomes := outcomes c @ map (\<lambda>r. (r, k, GotView (path_of k))) ws,
           inflight := AList.delete k (inflight c)\<rparr>)"

text \<open>
  Modelled from the spec: the fetch in flight for a key fails. All waiters get the
  error, the coordinator is removed, nothing is written and the index is left as it
  is.
\<close>

definition fetch_failure :: "ArchiveKey \<Rightarrow> string \<Rightarrow> Cache \<Rightarrow> Cache" where
  "fetch_failure k err c =
    (case map_of (inflight c) k of
       None \<Rightarrow> c
     | Some ws \<Rightarrow>
         c\<lparr>outcomes := outcomes c @ map (\<lambda>r. (r, k, GotError err)) ws,
           inflight := AList.delete k (inflight c)\<rparr>)"

text \<open>
  Modelled from the spec: release decrements the reference count; at zero the entry
  stays in the index, now open to eviction.
\<close>

definition release :: "ArchiveKey \<Rightarrow> Cache \<Rightarrow> Cache" where
  "release k c =
    (case map_of (index c) k of
       None \<Rightarrow> c
     | Some e \<Rightarrow> c\<lparr>index := AList.update k (e\<lparr>refCount := refCount e - 1\<rparr>) (index c)\<rparr>)"

text \<open>
  Modelled from the spec: eviction. It is due when a maximum is configured (0 means
  unbounded) and the size counter exceeds it. Victims are the entries with reference
  count zero, the least recently accessed first.
\<close>

definition over_bound :: "Cache \<Rightarrow> bool" where
  "over_bound c = (maxSize c \<noteq> 0 \<and> totalSize c > maxSize c)"

fun least_recent :: "(ArchiveKey \<times> CacheEntry) list \<Rightarrow> (ArchiveKey \<times> CacheEntry) option" where
  "least_recent [] = None"
| "least_recent (x # xs) =
    (case least_recent xs of
       None \<Rightarrow> Some x
     | Some y \<Rightarrow> if lastAccess (snd x) \<le> lastAccess (snd y) then Some x else Some y)"

definition select_victim :: "Cache \<Rightarrow> (ArchiveKey \<times> CacheEntry) option" where
  "select_victim c = least_recent (filter (\<lambda>(k, e). refCount e = 0) (index c))"

definition evict_one :: "Cache \<Rightarrow> Cache option" where
  "evict_one c =
    (if over_bound c
     then (case select_victim c of
             None \<Rightarrow> None
           | Some (k, e) \<Rightarrow>
               Some (c\<lparr>index := AList.delete k (index c),
                        totalSize := totalSize c - sizeBytes e\<rparr>))
     else None)"

text \<open>
  Modelled from the spec: the eviction pass removes victims until the cache is under
  the bound or no victim remains. Every removal shortens the index, so the pass ends.
\<close>

function evict :: "Cache \<Rightarrow> Cache" where
  "evict c = (case evict_one c of None \<Rightarrow> c | Some c' \<Rightarrow> evict c')"
  by pat_completeness auto
termination
proof (relation "measure (\<lambda>c. length (index c))")
  show "wf (measure (\<lambda>c. length (index c)))"
    by simp
next
  fix c c' :: Cache
  assume ev: "evict_one c = Some c'"
  have mem: "least_recent xs = Some x \<Longrightarrow> x \<in> set xs" for xs x
    by (induction xs arbitrary: x) (auto split: option.splits if_splits)
  have shorter: "(k, e) \<in> set al \<Longrightarrow> length (AList.delete k al) < length al"
    for k :: ArchiveKey and e :: CacheEntry and al
    unfolding AList.delete_eq by (rule length_filter_less) auto
  from ev obtain k e where v: "select_victim c = Some (k, e)"
    and c': "c' = c\<lparr>index := AList.delete k (index c), totalSize := totalSize c - sizeBytes e\<rparr>"
    by (auto simp: evict_one_def split: if_splits option.splits)
  from v have "(k, e) \<in> set (index c)"
    using mem [of "filter (\<lambda>(k, e). refCount e = 0) (index c)" "(k, e)"]
    by (simp add: select_victim_def)
  then show "(c', c) \<in> measure (\<lambda>c. length (index c))"
    using shorter c' by simp
qed

text \<open>Modelled from the spec: the operations a schedule is made of, and their effect.\<close>

datatype operation =
    Acquire requester ArchiveKey
  | FetchSucceeds ArchiveKey nat
  | FetchFails ArchiveKey string
  | Release ArchiveKey
  | Evict

fun step :: "Cache \<Rightarrow> operation \<Rightarrow> Cache" where
  "step c (Acquire r k) = acquire r k c"
| "step c (FetchSucceeds k sz) = fetch_success k sz c"
| "step c (FetchFails k err) = fetch_failure k err c"
| "step c (Release k) = release k c"
| "step c Evict = evict c"

definition run :: "Cache \<Rightarrow> operation list \<Rightarrow> Cache" where
  "run c ops = foldl step c ops"

text \<open>
  Modelled from the spec: reading a schedule with respect to one key: the requesters
  of its acquisitions, in order, and whether an operation resolves the fetch in
  flight for it.
\<close>

fun acquirers :: "ArchiveKey \<Rightarrow> operation list \<Rightarrow> requester list" where
  "acquirers k [] = []"
| "acquirers k (Acquire r k' # ops) = (if k' = k then r # acquirers k ops else acquirers k ops)"
| "acquirers k (op # ops) = acquirers k ops"

fun resolves :: "ArchiveKey \<Rightarrow> operation \<Rightarrow> bool" where
  "resolves k (FetchSucceeds k' sz) = (k' = k)"
| "resolves k (FetchFails k' err) = (k' = k)"
| "resolves k op = False"

fun resolution :: "ArchiveKey \<Rightarrow> operation \<Rightarrow> outcome" where
  "resolution k (FetchFails k' err) = GotError err"
| "resolution k op = GotView (path_of k)"

definition outcomes_for :: "ArchiveKey \<Rightarrow> Cache \<Rightarrow> (requester \<times> outcome) list" where
  "outcomes_for k c = map (\<lambda>(r, k', out). (r, out)) (filter (\<lambda>(r, k', out). k' = k) (outcomes c))"

declare evict.simps [simp del]

section \<open>Properties of fetchTar\<close>

lemma HasPrefix_hyphen: "HasPrefix s ''-'' \<longleftrightarrow> (\<exists>rest. s = CHR ''-'' # rest)"
  by (cases s) (auto simp: HasPrefix_def)

text \<open>
  Claim C1. For every repository and every commit identifier that begins with the
  character \<open>-\<close>, \<open>fetchTar\<close> returns a \<open>badRequestError\<close> (for which \<open>BadRequest\<close>
  holds) and issues no command to gitserver at all.
\<close>

theorem fetchTar_rejects_leading_hyphen:
  assumes "HasPrefix commit ''-''"
  shows "fetchTar gs repo commit =
           (Inl (badRequestError ''invalid git revision spec (begins with '-')''), [])
         \<and> (\<exists>e. fst (fetchTar gs repo commit) = Inl e \<and> BadRequest e)
         \<and> snd (fetchTar gs repo commit) = []"
  using assms by (simp add: fetchTar_def)

theorem fetchTar_rejects_leading_hyphen_witness:
  "HasPrefix ''--output=/etc/x'' ''-''
   \<and> fetchTar demo_gitserver ''r'' ''--output=/etc/x'' =
       (Inl (badRequestError ''invalid git revision spec (begins with '-')''), [])
   \<and> snd (fetchTar demo_gitserver ''r'' ''--output=/etc/x'') = []"
proof -
  have h: "HasPrefix ''--output=/etc/x'' ''-''"
    by (simp add: HasPrefix_def)
  show ?thesis
    using h fetchTar_rejects_leading_hyphen [OF h, of demo_gitserver "''r''"] by simp
qed

text \<open>
  Claim C2. Whenever the command is issued (the commit does not begin with \<open>-\<close>) and
  gitserver answers with an error that says the repository does not exist, or with the
  revision-not-found error, \<open>fetchTar\<close> returns a \<open>badRequestError\<close> carrying the
  upstream message: a client-caused error, for which \<open>BadRequest\<close> holds and which is
  no longer the upstream error value.
\<close>

theorem fetchTar_not_found_is_bad_request:
  assumes "\<not> HasPrefix commit ''-''"
    and "StdoutReader gs \<lparr>Args = [''git'', ''archive'', ''--format=tar'', commit],
                           Repo = repo, EnsureRevision = commit\<rparr> = Inl err"
    and "IsRepoNotExist gs err \<or> err = ErrRevisionNotFound gs"
  shows "fst (fetchTar gs repo commit) = Inl (badRequestError (ErrorString gs err))
         \<and> (\<exists>e. fst (fetchTar gs repo commit) = Inl e \<and> BadRequest e)"
  using assms by (auto simp: fetchTar_def Let_def)

theorem fetchTar_not_found_is_bad_request_witness:
  "fst (fetchTar demo_gitserver ''gone'' ''abc'') =
     Inl (badRequestError ''repository does not exist'')
   \<and> fst (fetchTar demo_gitserver ''r'' ''nope'') =
     Inl (badRequestError ''revision not found'')"
proof -
  have a: "\<not> HasPrefix ''abc'' ''-''" and b: "\<not> HasPrefix ''nope'' ''-''"
    by (simp_all add: HasPrefix_def)
  have c: "StdoutReader demo_gitserver
             \<lparr>Args = [''git'', ''archive'', ''--format=tar'', ''abc''],
              Repo = ''gone'', EnsureRevision = ''abc''\<rparr> = Inl 0"
    by (simp add: demo_gitserver_def)
  have d: "StdoutReader demo_gitserver
             \<lparr>Args = [''git'', ''archive'', ''--format=tar'', ''nope''],
              Repo = ''r'', EnsureRevision = ''nope''\<rparr> = Inl 1"
    by (simp add: demo_gitserver_def)
  have e: "IsRepoNotExist demo_gitserver 0 \<or> 0 = ErrRevisionNotFound demo_gitserver"
    by (simp add: demo_gitserver_def)
  have f: "IsRepoNotExist demo_gitserver 1 \<or> 1 = ErrRevisionNotFound demo_gitserver"
    by (simp add: demo_gitserver_def)
  show ?thesis
    using fetchTar_not_found_is_bad_request [OF a c e]
      fetchTar_not_found_is_bad_request [OF b d f]
    by (simp add: demo_gitserver_def)
qed

text \<open>
  Claim C3. Whenever the command is issued and gitserver answers with an error that is
  neither a repository-does-not-exist error nor the revision-not-found error,
  \<open>fetchTar\<close> returns that very error value: it is not wrapped into a
  \<open>badRequestError\<close>, and \<open>BadRequest\<close> does not hold for the result.
\<close>

theorem fetchTar_other_failure_unchanged:
  assumes "\<not> HasPrefix commit ''-''"
    and "StdoutReader gs \<lparr>Args = [''git'', ''archive'', ''--format=tar'', commit],
                           Repo = repo, EnsureRevision = commit\<rparr> = Inl err"
    and "\<not> IsRepoNotExist gs err" and "err \<noteq> ErrRevisionNotFound gs"
  shows "fst (fetchTar gs repo commit) = Inl (Upstream err)
         \<and> (\<forall>msg. fst (fetchTar gs repo commit) \<noteq> Inl (badRequestError msg))
         \<and> (\<forall>e. fst (fetchTar gs repo commit) = Inl e \<longrightarrow> \<not> BadRequest e)"
  using assms by (auto simp: fetchTar_def Let_def)

theorem fetchTar_other_failure_unchanged_witness:
  "fst (fetchTar demo_gitserver ''down'' ''abc'') = Inl (Upstream 2)"
proof -
  have a: "\<not> HasPrefix ''abc'' ''-''"
    by (simp add: HasPrefix_def)
  have c: "StdoutReader demo_gitserver
             \<lparr>Args = [''git'', ''archive'', ''--format=tar'', ''abc''],
              Repo = ''down'', EnsureRevision = ''abc''\<rparr> = Inl 2"
    by (simp add: demo_gitserver_def)
  have e: "\<not> IsRepoNotExist demo_gitserver 2" "2 \<noteq> ErrRevisionNotFound demo_gitserver"
    by (simp_all add: demo_gitserver_def)
  show ?thesis
    using fetchTar_other_failure_unchanged [OF a c e] by simp
qed

section \<open>Properties of main\<close>

lemma started_store_append_debug:
  "started_store ((if p \<noteq> [] then [debugserver_Start p] else []) @ evs) = started_store evs"
  by simp

lemma listened_append_debug:
  "listened ((if p \<noteq> [] then [debugserver_Start p] else []) @ evs) = listened evs"
  by simp

lemma started_store_main:
  assumes "ParseInt cacheSizeMB = Inr i"
  shows "started_store (main p d cacheSizeMB addrs sc) =
           Some \<lparr>Path = (d, ''searcher-archives''),
                 MaxCacheSizeBytes = i * 1000 * 1000,
                 MaxConcurrentFetchTar = 10 * int (length addrs)\<rparr>"
  unfolding main_def started_store_append_debug using assms by (simp add: Let_def)

lemma sint_times_million:
  fixes i :: "64 word"
  assumes "- 9223372036854 \<le> sint i" and "sint i \<le> 9223372036854"
  shows "sint (i * 1000 * 1000) = sint i * 1000000"
proof -
  have m: "sint (1000000 :: 64 word) = 1000000"
    by simp
  have "sint (i * 1000000) = signed_take_bit 63 (sint i * sint (1000000 :: 64 word))"
    unfolding sint_word_ariths by (simp add: word_size)
  also have "\<dots> = signed_take_bit 63 (sint i * 1000000)"
    unfolding m ..
  also have "\<dots> = sint i * 1000000"
    using assms by (intro signed_take_bit_int_eq_self) simp_all
  finally have "sint (i * 1000000) = sint i * 1000000" .
  moreover have "i * 1000 * 1000 = i * 1000000"
    by simp
  ultimately show ?thesis
    by (simp only:)
qed

text \<open>
  Within \<open>-9223372036854 .. 9223372036854\<close> the product does not leave \<open>int64\<close>, and
  the store is started with exactly \<open>i * 1000000\<close> bytes; the setting \<open>0\<close> gives 0.
\<close>

lemma max_cache_size_exact_in_range:
  assumes "ParseInt cacheSizeMB = Inr i"
    and "- 9223372036854 \<le> sint i" and "sint i \<le> 9223372036854"
  shows "configured_max_bytes (main profBindAddr cacheDir cacheSizeMB Addrs serverClosed)
           = Some (sint i * 1000000)"
  unfolding configured_max_bytes_def started_store_main [OF assms(1)]
  by (simp only: option.map Store.simps sint_times_million [OF assms(2,3)])

lemma max_cache_size_zero:
  "ParseInt ''0'' = Inr 0
   \<and> configured_max_bytes (main [] ''/tmp'' ''0'' [''gitserver:3178''] True) = Some 0"
proof -
  have p0: "ParseInt ''0'' = Inr 0"
    by (simp add: ParseInt_def ParseUint_def)
  have b0: "- 9223372036854 \<le> sint (0 :: 64 word)" "sint (0 :: 64 word) \<le> 9223372036854"
    by simp_all
  show ?thesis
    using p0 max_cache_size_exact_in_range [OF p0 b0, of "[]" "''/tmp''" "[''gitserver:3178'']" True]
    by simp
qed

text \<open>
  Claim C7, at a setting where the code misses it. The setting is documented as the
  maximum size of the cache in megabytes. \<open>9223372036855\<close> parses without a range
  error, but the product \<open>i * 1000 * 1000\<close> leaves \<open>int64\<close> unchecked and wraps: the
  store is started with a negative number of bytes instead of
  \<open>9223372036855 * 1000000\<close>.
\<close>

theorem max_cache_size_wraps_at_9223372036855:
  "ParseInt ''9223372036855'' = Inr 9223372036855
   \<and> configured_max_bytes (main [] ''/tmp'' ''9223372036855'' [''gitserver:3178''] True)
       = Some (- 9223372036854551616)
   \<and> configured_max_bytes (main [] ''/tmp'' ''9223372036855'' [''gitserver:3178''] True)
       \<noteq> Some (9223372036855 * 1000000)"
proof -
  have p: "ParseInt ''9223372036855'' = Inr 9223372036855"
    by (simp add: ParseInt_def ParseUint_def)
  have w: "sint ((9223372036855 :: 64 word) * 1000 * 1000) = - 9223372036854551616"
    by simp
  show ?thesis
    using p w by (simp add: configured_max_bytes_def started_store_main [OF p])
qed

text \<open>
  Claim C8. Whenever \<open>main\<close> gets as far as starting the store, the bound on concurrent
  fetches it configures is exactly ten times the number of gitserver addresses.
\<close>

theorem max_concurrent_fetches_ten_per_gitserver:
  assumes "ParseInt cacheSizeMB = Inr i"
  shows "configured_max_fetches (main profBindAddr cacheDir cacheSizeMB Addrs serverClosed)
           = Some (10 * int (length Addrs))"
  by (simp add: configured_max_fetches_def started_store_main [OF assms])

theorem max_concurrent_fetches_ten_per_gitserver_witness:
  "ParseInt ''0'' = Inr 0
   \<and> configured_max_fetches
       (main [] ''/tmp'' ''0'' [''gitserver-0:3178'', ''gitserver-1:3178'', ''gitserver-2:3178''] True)
       = Some 30"
proof -
  have p0: "ParseInt ''0'' = Inr 0"
    by (simp add: ParseInt_def ParseUint_def)
  show ?thesis
    using p0 max_concurrent_fetches_ten_per_gitserver [OF p0, of "[]" "''/tmp''"
        "[''gitserver-0:3178'', ''gitserver-1:3178'', ''gitserver-2:3178'']" True]
    by simp
qed

text \<open>
  Claim C10. If the cache size setting does not parse, \<open>main\<close> ends in \<open>log_Fatalf\<close>:
  apart from the optional start of the debug server nothing else happens, so no store
  is started and the server never listens.
\<close>

theorem unparsable_cache_size_is_fatal:
  assumes "ParseInt cacheSizeMB = Inl err"
  shows "main profBindAddr cacheDir cacheSizeMB Addrs serverClosed =
           (if profBindAddr \<noteq> [] then [debugserver_Start profBindAddr] else []) @
           [log_Fatalf cacheSizeMB err]
         \<and> last (main profBindAddr cacheDir cacheSizeMB Addrs serverClosed)
             = log_Fatalf cacheSizeMB err
         \<and> started_store (main profBindAddr cacheDir cacheSizeMB Addrs serverClosed) = None
         \<and> \<not> listened (main profBindAddr cacheDir cacheSizeMB Addrs serverClosed)"
  unfolding main_def started_store_append_debug listened_append_debug
  using assms by simp

theorem unparsable_cache_size_is_fatal_witness:
  "ParseInt ''1.5'' = Inl ErrSyntax
   \<and> main '':6060'' ''/tmp'' ''1.5'' [''gitserver:3178''] True =
       [debugserver_Start '':6060'', log_Fatalf ''1.5'' ErrSyntax]
   \<and> ParseInt ''9223372036854775808'' = Inl ErrRange
   \<and> main [] ''/tmp'' ''9223372036854775808'' [''gitserver:3178''] True =
       [log_Fatalf ''9223372036854775808'' ErrRange]"
proof -
  have p0: "ParseInt ''1.5'' = Inl ErrSyntax"
    and p1: "ParseInt ''9223372036854775808'' = Inl ErrRange"
    by (simp_all add: ParseInt_def ParseUint_def)
  show ?thesis
    using p0 p1
      unparsable_cache_size_is_fatal [OF p0, of "'':6060''" "''/tmp''" "[''gitserver:3178'']" True]
      unparsable_cache_size_is_fatal [OF p1, of "[]" "''/tmp''" "[''gitserver:3178'']" True]
    by simp
qed

lemma process_ends_at_once: "process_ends_at drain = Some 0"
  by (simp add: process_ends_at_def shutdownOnSIGINT_def Shutdown_def Let_def)

text \<open>
  Claim C9, at an interrupt that arrives while a request is in flight that needs one
  more second. \<open>shutdownOnSIGINT\<close> asks for a grace period of ten seconds and
  \<open>Shutdown\<close> would return without error after one; but \<open>main\<close> ends right after
  \<open>ListenAndServe\<close>, so the process ends at the moment \<open>Shutdown\<close> is called and the
  request is not drained.
\<close>

theorem interrupt_ends_process_before_drain:
  "shutdownOnSIGINT (Shutdown Second) =
     [(0, signal_Notify), (0, interrupt_received), (0, context_WithTimeout (10 * Second)),
      (0, server_Shutdown), (Second, Shutdown_returned False)]
   \<and> main [] ''/tmp'' ''0'' [''gitserver:3178''] True =
     [Store_Start \<lparr>Path = (''/tmp'', ''searcher-archives''), MaxCacheSizeBytes = 0,
                   MaxConcurrentFetchTar = 10\<rparr>,
      go_shutdownOnSIGINT, ListenAndServe '':3181'']
   \<and> process_ends_at Second = Some 0
   \<and> \<not> requests_drained Second"
proof -
  have p: "ParseInt ''0'' = Inr 0"
    by (simp add: ParseInt_def ParseUint_def)
  have s: "Shutdown Second (10 * Second) = (Second, False)"
    by (simp add: Shutdown_def)
  have a: "shutdownOnSIGINT (Shutdown Second) =
     [(0, signal_Notify), (0, interrupt_received), (0, context_WithTimeout (10 * Second)),
      (0, server_Shutdown), (Second, Shutdown_returned False)]"
    by (simp add: shutdownOnSIGINT_def s)
  have b: "main [] ''/tmp'' ''0'' [''gitserver:3178''] True =
     [Store_Start \<lparr>Path = (''/tmp'', ''searcher-archives''), MaxCacheSizeBytes = 0,
                   MaxConcurrentFetchTar = 10\<rparr>,
      go_shutdownOnSIGINT, ListenAndServe '':3181'']"
    by (simp add: main_def p)
  have c: "process_ends_at Second = Some 0"
    by (simp add: process_ends_at_def a)
  have d: "\<not> requests_drained Second"
    unfolding requests_drained_def c by (simp add: Second_def)
  from a b c d show ?thesis
    by (intro conjI)
qed

section \<open>Properties of the archive cache\<close>

subsection \<open>Eviction\<close>

lemma least_recent_mem: "least_recent xs = Some x \<Longrightarrow> x \<in> set xs"
  by (induction xs arbitrary: x) (auto split: option.splits if_splits)

lemma select_victim_unpinned:
  assumes "select_victim c = Some (k, e)"
  shows "(k, e) \<in> set (index c)" and "refCount e = 0"
  using least_recent_mem [OF assms [unfolded select_victim_def]] by auto

lemma evict_one_cases:
  assumes "evict_one c = Some c'"
  obtains k e where "select_victim c = Some (k, e)"
    and "c' = c\<lparr>index := AList.delete k (index c), totalSize := totalSize c - sizeBytes e\<rparr>"
  using assms by (auto simp: evict_one_def split: if_splits option.splits)

lemma evict_one_frame:
  assumes "evict_one c = Some c'"
  shows "inflight c' = inflight c" and "fetches c' = fetches c"
    and "outcomes c' = outcomes c" and "maxSize c' = maxSize c"
  using assms by (auto elim!: evict_one_cases)

lemma evict_one_distinct:
  assumes "evict_one c = Some c'" and "distinct (map fst (index c))"
  shows "distinct (map fst (index c'))"
  using assms by (auto elim!: evict_one_cases simp: distinct_delete)

lemma evict_one_keeps_pinned:
  assumes "evict_one c = Some c'" and "distinct (map fst (index c))"
    and "map_of (index c) k = Some e" and "refCount e > 0"
  shows "map_of (index c') k = Some e"
proof -
  from assms(1) obtain v ev where v: "select_victim c = Some (v, ev)"
    and c': "c' = c\<lparr>index := AList.delete v (index c), totalSize := totalSize c - sizeBytes ev\<rparr>"
    by (rule evict_one_cases)
  from select_victim_unpinned [OF v] assms(2)
  have "map_of (index c) v = Some ev" and "refCount ev = 0"
    by simp_all
  with assms(3,4) have "v \<noteq> k"
    by auto
  then show ?thesis
    using c' assms(3) by simp
qed

lemma evict_one_absent:
  assumes "evict_one c = Some c'" and "map_of (index c) k = None"
  shows "map_of (index c') k = None"
  using assms by (auto elim!: evict_one_cases simp: delete_conv')

lemma evict_frame:
  "inflight (evict c) = inflight c \<and> fetches (evict c) = fetches c
   \<and> outcomes (evict c) = outcomes c \<and> maxSize (evict c) = maxSize c"
proof (induction c rule: evict.induct)
  case (1 c)
  show ?case
  proof (cases "evict_one c")
    case None
    then show ?thesis by (simp add: evict.simps [of c])
  next
    case (Some c')
    with 1 evict_one_frame [OF Some] show ?thesis
      by (simp add: evict.simps [of c])
  qed
qed

lemma evict_distinct:
  "distinct (map fst (index c)) \<Longrightarrow> distinct (map fst (index (evict c)))"
proof (induction c rule: evict.induct)
  case (1 c)
  show ?case
  proof (cases "evict_one c")
    case None
    with 1 show ?thesis by (simp add: evict.simps [of c])
  next
    case (Some c')
    with 1 evict_one_distinct [OF Some] show ?thesis
      by (simp add: evict.simps [of c])
  qed
qed

lemma evict_keeps_pinned:
  assumes "distinct (map fst (index c))" and "map_of (index c) k = Some e" and "refCount e > 0"
  shows "map_of (index (evict c)) k = Some e"
  using assms
proof (induction c rule: evict.induct)
  case (1 c)
  show ?case
  proof (cases "evict_one c")
    case None
    with 1 show ?thesis by (simp add: evict.simps [of c])
  next
    case (Some c')
    have "map_of (index (evict c')) k = Some e"
      using "1.IH" [OF Some evict_one_distinct [OF Some "1.prems"(1)]
          evict_one_keeps_pinned [OF Some "1.prems"]] "1.prems"(3) .
    with Some show ?thesis
      by (simp add: evict.simps [of c])
  qed
qed

lemma evict_absent:
  "map_of (index c) k = None \<Longrightarrow> map_of (index (evict c)) k = None"
proof (induction c rule: evict.induct)
  case (1 c)
  show ?case
  proof (cases "evict_one c")
    case None
    with 1 show ?thesis by (simp add: evict.simps [of c])
  next
    case (Some c')
    with 1 evict_one_absent [OF Some] show ?thesis
      by (simp add: evict.simps [of c])
  qed
qed

text \<open>The pass runs to convergence: afterwards no further removal is due.\<close>

lemma evict_converged: "evict_one (evict c) = None"
proof (induction c rule: evict.induct)
  case (1 c)
  show ?case
  proof (cases "evict_one c")
    case None
    then show ?thesis by (simp add: evict.simps [of c])
  next
    case (Some c')
    with 1 show ?thesis by (simp add: evict.simps [of c])
  qed
qed

lemma evict_unbounded: "maxSize c = 0 \<Longrightarrow> evict c = c"
  by (simp add: evict.simps [of c] evict_one_def over_bound_def)

text \<open>A maximum of 0 means unbounded: eviction is never due and the pass removes nothing.\<close>

lemma zero_bound_disables_eviction:
  "maxSize c = 0 \<Longrightarrow> \<not> over_bound c \<and> evict_one c = None \<and> evict c = c"
  by (simp add: evict_unbounded evict_one_def over_bound_def)

subsection \<open>One key under concurrent acquisitions\<close>

lemma acquirers_append: "acquirers k (ops @ ops') = acquirers k ops @ acquirers k ops'"
  by (induction k ops rule: acquirers.induct) simp_all

lemma outcomes_for_append:
  "outcomes c' = outcomes c @ xs \<Longrightarrow>
   outcomes_for k c' = outcomes_for k c @ map (\<lambda>(r, k', out). (r, out)) (filter (\<lambda>(r, k', out). k' = k) xs)"
  by (simp add: outcomes_for_def)

lemma outcomes_for_other_key:
  "k' \<noteq> k \<Longrightarrow> filter (\<lambda>(r, k'', out). k'' = k) (map (\<lambda>r. (r, k', out)) ws) = []"
  by (induction ws) simp_all

lemma outcomes_for_same_key:
  "map (\<lambda>(r, k', out). (r, out)) (filter (\<lambda>(r, k'', out). k'' = k) (map (\<lambda>r. (r, k, out)) ws))
   = map (\<lambda>r. (r, out)) ws"
  by (induction ws) simp_all

lemma step_while_unresolved:
  assumes idx: "map_of (index c) k = None"
    and fl: "map_of (inflight c) k = (if rs = [] then None else Some rs)"
    and un: "\<not> resolves k op"
  shows "map_of (index (step c op)) k = None
    \<and> map_of (inflight (step c op)) k =
        (if rs @ acquirers k [op] = [] then None else Some (rs @ acquirers k [op]))
    \<and> count_list (fetches (step c op)) k =
        count_list (fetches c) k + (if rs = [] \<and> acquirers k [op] \<noteq> [] then 1 else 0)
    \<and> outcomes_for k (step c op) = outcomes_for k c"
proof (cases op)
  case (Acquire r k')
  show ?thesis
  proof (cases "k' = k")
    case True
    with Acquire idx fl show ?thesis
      by (simp add: acquire_def update_conv' outcomes_for_def)
  next
    case False
    with Acquire idx fl show ?thesis
      by (auto simp: acquire_def update_conv' outcomes_for_def split: option.splits)
  qed
next
  case (FetchSucceeds k' sz)
  with un have "k' \<noteq> k" by simp
  with FetchSucceeds idx fl show ?thesis
    by (auto simp: fetch_success_def update_conv' delete_conv' outcomes_for_def
        outcomes_for_other_key split: option.splits)
next
  case (FetchFails k' err)
  with un have "k' \<noteq> k" by simp
  with FetchFails idx fl show ?thesis
    by (auto simp: fetch_failure_def delete_conv' outcomes_for_def
        outcomes_for_other_key split: option.splits)
next
  case (Release k')
  with idx fl show ?thesis
    by (auto simp: release_def update_conv' outcomes_for_def split: option.splits)
next
  case Evict
  with idx fl evict_frame [of c] evict_absent [OF idx] show ?thesis
    by (simp add: outcomes_for_def)
qed

lemma run_while_unresolved:
  assumes "map_of (index c) k = None"
    and "map_of (inflight c) k = (if rs = [] then None else Some rs)"
    and "\<forall>op \<in> set ops. \<not> resolves k op"
  shows "map_of (index (run c ops)) k = None
    \<and> map_of (inflight (run c ops)) k =
        (if rs @ acquirers k ops = [] then None else Some (rs @ acquirers k ops))
    \<and> count_list (fetches (run c ops)) k =
        count_list (fetches c) k + (if rs = [] \<and> acquirers k ops \<noteq> [] then 1 else 0)
    \<and> outcomes_for k (run c ops) = outcomes_for k c"
  using assms
proof (induction ops arbitrary: c rs)
  case Nil
  then show ?case by (simp add: run_def)
next
  case (Cons op ops)
  from Cons.prems(3) have un: "\<not> resolves k op" and rest: "\<forall>op \<in> set ops. \<not> resolves k op"
    by simp_all
  note s = step_while_unresolved [OF Cons.prems(1,2) un]
  from s have a: "map_of (index (step c op)) k = None" by blast
  from s have b: "map_of (inflight (step c op)) k =
        (if rs @ acquirers k [op] = [] then None else Some (rs @ acquirers k [op]))" by blast
  note ih = Cons.IH [OF a b rest]
  have split: "acquirers k (op # ops) = acquirers k [op] @ acquirers k ops"
    using acquirers_append [of k "[op]" ops] by simp
  have r: "run c (op # ops) = run (step c op) ops"
    by (simp add: run_def)
  show ?case
    unfolding r split using ih s by (auto split: if_splits)
qed

subsection \<open>Invariants of the index\<close>

lemma run_Cons: "run c (op # ops) = run (step c op) ops"
  by (simp add: run_def)

lemma run_snoc: "run c (ops @ [op]) = step (run c ops) op"
  by (simp add: run_def)

lemma step_distinct:
  assumes "distinct (map fst (index c))"
  shows "distinct (map fst (index (step c op)))"
proof (cases op)
  case Evict
  with assms show ?thesis by (simp add: evict_distinct)
qed (use assms in \<open>auto simp: acquire_def fetch_success_def fetch_failure_def release_def
      distinct_update split: option.splits\<close>)

lemma run_distinct:
  "distinct (map fst (index c)) \<Longrightarrow> distinct (map fst (index (run c ops)))"
  by (induction ops arbitrary: c) (simp_all add: run_def step_distinct)

lemma reachable_distinct: "distinct (map fst (index (run (init m) ops)))"
  by (rule run_distinct) (simp add: init_def)

text \<open>A key with a fetch in flight has no entry in the index.\<close>

lemma step_inflight_absent:
  assumes inv: "\<And>k ws. map_of (inflight c) k = Some ws \<Longrightarrow> map_of (index c) k = None"
    and fl: "map_of (inflight (step c op)) k = Some ws"
  shows "map_of (index (step c op)) k = None"
proof (cases op)
  case (Acquire r k')
  show ?thesis
  proof (cases "map_of (index c) k'")
    case None
    with Acquire fl inv show ?thesis
      by (cases "k = k'") (auto simp: acquire_def update_conv' split: option.splits)
  next
    case (Some e)
    with Acquire fl have "map_of (inflight c) k = Some ws"
      by (simp add: acquire_def)
    from inv [OF this] Some have "k \<noteq> k'" "map_of (index c) k = None"
      by auto
    with Acquire Some show ?thesis
      by (simp add: acquire_def update_conv')
  qed
next
  case (FetchSucceeds k' sz)
  show ?thesis
  proof (cases "map_of (inflight c) k'")
    case None
    with FetchSucceeds fl inv show ?thesis
      by (simp add: fetch_success_def)
  next
    case (Some ws')
    with FetchSucceeds fl have "k \<noteq> k'"
      by (auto simp: fetch_success_def delete_conv')
    with FetchSucceeds Some fl inv [of k ws] show ?thesis
      by (simp add: fetch_success_def update_conv')
  qed
next
  case (FetchFails k' err)
  show ?thesis
  proof (cases "map_of (inflight c) k'")
    case None
    with FetchFails fl inv show ?thesis
      by (simp add: fetch_failure_def)
  next
    case (Some ws')
    with FetchFails fl have "k \<noteq> k'"
      by (auto simp: fetch_failure_def delete_conv')
    with FetchFails Some fl inv [of k ws] show ?thesis
      by (simp add: fetch_failure_def)
  qed
next
  case (Release k')
  show ?thesis
  proof (cases "map_of (index c) k'")
    case None
    with Release fl inv show ?thesis
      by (simp add: release_def)
  next
    case (Some e)
    with Release fl have "map_of (inflight c) k = Some ws"
      by (simp add: release_def)
    from inv [OF this] Some have "k \<noteq> k'" "map_of (index c) k = None"
      by auto
    with Release Some show ?thesis
      by (simp add: release_def update_conv')
  qed
next
  case Evict
  with fl have "map_of (inflight c) k = Some ws"
    using evict_frame [of c] by simp
  from evict_absent [OF inv [OF this]] Evict show ?thesis
    by simp
qed

lemma run_inflight_absent:
  assumes "\<And>k ws. map_of (inflight c) k = Some ws \<Longrightarrow> map_of (index c) k = None"
    and "map_of (inflight (run c ops)) k = Some ws"
  shows "map_of (index (run c ops)) k = None"
  using assms
proof (induction ops arbitrary: c k ws)
  case Nil
  then show ?case by (simp add: run_def)
next
  case (Cons op ops)
  show ?case
    unfolding run_Cons
  proof (rule Cons.IH)
    show "map_of (index (step c op)) k' = None" if "map_of (inflight (step c op)) k' = Some ws'"
      for k' ws'
      using step_inflight_absent [OF Cons.prems(1) that] .
    show "map_of (inflight (run (step c op) ops)) k = Some ws"
      using Cons.prems(2) by (simp add: run_Cons)
  qed
qed

lemma reachable_inflight_absent:
  assumes "map_of (inflight (run (init m) ops)) k = Some ws"
  shows "map_of (index (run (init m) ops)) k = None"
proof (rule run_inflight_absent [OF _ assms])
  show "map_of (index (init m)) k' = None" for k'
    by (simp add: init_def)
qed

lemma step_keeps_key:
  assumes "distinct (map fst (index c))" and "map_of (index c) k = Some e" and "refCount e > 0"
  shows "map_of (index (step c op)) k \<noteq> None"
proof (cases op)
  case Evict
  with evict_keeps_pinned [OF assms] show ?thesis by simp
qed (use assms in \<open>auto simp: acquire_def fetch_success_def fetch_failure_def release_def
      update_conv' split: option.splits if_splits\<close>)

subsection \<open>The claims about the cache\<close>

text \<open>
  Claim C4. Take a key that has no entry and no fetch in flight (a miss, the case for
  which section 4.2 states the property), and a schedule in which N acquisitions for the key (N at least 1) arrive, interleaved in any way with
  operations on other keys, releases and eviction passes, before the fetch for the key
  is resolved. Then exactly one fetch for the key is started, no requester gets an
  outcome for the key before the resolution, and at the resolution, success or failure,
  each of the N requesters gets the same outcome.
\<close>

theorem concurrent_acquisitions_share_one_fetch:
  assumes "map_of (index c) k = None" and "map_of (inflight c) k = None"
    and "\<forall>op \<in> set ops. \<not> resolves k op"
    and "acquirers k ops \<noteq> []"
    and "resolves k res"
  shows "count_list (fetches (run c (ops @ [res]))) k = count_list (fetches c) k + 1
    \<and> outcomes_for k (run c ops) = outcomes_for k c
    \<and> outcomes_for k (run c (ops @ [res])) =
        outcomes_for k c @ map (\<lambda>r. (r, resolution k res)) (acquirers k ops)
    \<and> map_of (inflight (run c (ops @ [res]))) k = None"
proof -
  have fl: "map_of (inflight c) k = (if ([] :: requester list) = [] then None else Some [])"
    using assms(2) by simp
  note u = run_while_unresolved [OF assms(1) fl assms(3)]
  from u assms(4) have w: "map_of (inflight (run c ops)) k = Some (acquirers k ops)"
    by simp
  from u assms(4) have f: "count_list (fetches (run c ops)) k = count_list (fetches c) k + 1"
    by simp
  from u have o: "outcomes_for k (run c ops) = outcomes_for k c"
    by simp
  show ?thesis
  proof (cases res)
    case (FetchSucceeds k' sz)
    with assms(5) have "k' = k" by simp
    with FetchSucceeds w f o show ?thesis
      unfolding run_snoc
      by (simp add: fetch_success_def outcomes_for_def outcomes_for_same_key delete_conv')
  next
    case (FetchFails k' err)
    with assms(5) have "k' = k" by simp
    with FetchFails w f o show ?thesis
      unfolding run_snoc
      by (simp add: fetch_failure_def outcomes_for_def outcomes_for_same_key delete_conv')
  qed (use assms(5) in simp_all)
qed

theorem concurrent_acquisitions_share_one_fetch_witness:
  "count_list (fetches (run (init 0)
       [Acquire 1 (''r'', ''c1''), Acquire 2 (''r'', ''c2''), Acquire 3 (''r'', ''c1''),
        Evict, Acquire 4 (''r'', ''c1''), FetchFails (''r'', ''c1'') ''boom''])) (''r'', ''c1'') = 1
   \<and> outcomes_for (''r'', ''c1'') (run (init 0)
       [Acquire 1 (''r'', ''c1''), Acquire 2 (''r'', ''c2''), Acquire 3 (''r'', ''c1''),
        Evict, Acquire 4 (''r'', ''c1''), FetchFails (''r'', ''c1'') ''boom''])
     = [(1, GotError ''boom''), (3, GotError ''boom''), (4, GotError ''boom'')]"
proof -
  have a: "map_of (index (init 0)) (''r'', ''c1'') = None"
    and b: "map_of (inflight (init 0)) (''r'', ''c1'') = None"
    by (simp_all add: init_def)
  have c: "\<forall>op \<in> set [Acquire 1 (''r'', ''c1''), Acquire 2 (''r'', ''c2''),
                        Acquire 3 (''r'', ''c1''), Evict, Acquire 4 (''r'', ''c1'')].
             \<not> resolves (''r'', ''c1'') op"
    by simp
  have d: "acquirers (''r'', ''c1'') [Acquire 1 (''r'', ''c1''), Acquire 2 (''r'', ''c2''),
             Acquire 3 (''r'', ''c1''), Evict, Acquire 4 (''r'', ''c1'')] \<noteq> []"
    by simp
  have e: "resolves (''r'', ''c1'') (FetchFails (''r'', ''c1'') ''boom'')"
    by simp
  show ?thesis
    using concurrent_acquisitions_share_one_fetch [OF a b c d e]
    by (simp add: init_def outcomes_for_def)
qed

text \<open>
  Claim C5. In every state the cache reaches from the empty cache, an entry whose
  reference count is above zero is not the victim that eviction selects, is still
  there, unchanged, after a single removal and after a whole eviction pass, and is
  still in the index after any operation whatever.
\<close>

theorem pinned_entry_never_evicted:
  assumes "c = run (init m) ops"
    and "map_of (index c) k = Some e" and "refCount e > 0"
  shows "(\<forall>e'. select_victim c \<noteq> Some (k, e'))
    \<and> (\<forall>c'. evict_one c = Some c' \<longrightarrow> map_of (index c') k = Some e)
    \<and> map_of (index (evict c)) k = Some e
    \<and> (\<forall>op. map_of (index (step c op)) k \<noteq> None)"
proof -
  have d: "distinct (map fst (index c))"
    unfolding assms(1) by (rule reachable_distinct)
  have "select_victim c \<noteq> Some (k, e')" for e'
  proof
    assume v: "select_victim c = Some (k, e')"
    from select_victim_unpinned [OF v] d have "map_of (index c) k = Some e'" "refCount e' = 0"
      by simp_all
    with assms(2,3) show False by simp
  qed
  moreover have "map_of (index c') k = Some e" if "evict_one c = Some c'" for c'
    using evict_one_keeps_pinned [OF that d assms(2,3)] .
  moreover have "map_of (index (evict c)) k = Some e"
    using evict_keeps_pinned [OF d assms(2,3)] .
  moreover have "map_of (index (step c op)) k \<noteq> None" for op
    using step_keeps_key [OF d assms(2,3)] .
  ultimately show ?thesis
    by blast
qed

theorem pinned_entry_never_evicted_witness:
  "map_of (index (run (init 5)
       [Acquire 1 (''r'', ''a''), FetchSucceeds (''r'', ''a'') 10,
        Acquire 2 (''r'', ''b''), FetchSucceeds (''r'', ''b'') 10, Release (''r'', ''b'')]))
     (''r'', ''a'')
     = Some \<lparr>location = ''r@a'', sizeBytes = 10, lastAccess = 0, refCount = 1\<rparr>
   \<and> map_of (index (evict (run (init 5)
       [Acquire 1 (''r'', ''a''), FetchSucceeds (''r'', ''a'') 10,
        Acquire 2 (''r'', ''b''), FetchSucceeds (''r'', ''b'') 10, Release (''r'', ''b'')])))
     (''r'', ''a'')
     = Some \<lparr>location = ''r@a'', sizeBytes = 10, lastAccess = 0, refCount = 1\<rparr>"
proof -
  have h: "map_of (index (run (init 5)
       [Acquire 1 (''r'', ''a''), FetchSucceeds (''r'', ''a'') 10,
        Acquire 2 (''r'', ''b''), FetchSucceeds (''r'', ''b'') 10, Release (''r'', ''b'')]))
     (''r'', ''a'')
     = Some \<lparr>location = ''r@a'', sizeBytes = 10, lastAccess = 0, refCount = 1\<rparr>"
    by (simp add: run_def init_def acquire_def fetch_success_def release_def path_of_def)
  have p: "refCount \<lparr>location = ''r@a'', sizeBytes = 10, lastAccess = 0, refCount = 1\<rparr> > 0"
    by simp
  show ?thesis
    using h pinned_entry_never_evicted [OF refl h p] by blast
qed

text \<open>
  When the fetch in flight for a key fails, in any state the cache reaches from the
  empty cache, whatever happened since the fetch was started: the step leaves the
  index and the size counter alone, the key has no entry and its coordinator is gone.
\<close>

lemma failing_step_in_flight:
  assumes "c = run (init m) ops" and "map_of (inflight c) k = Some ws"
  shows "index (step c (FetchFails k err)) = index c
    \<and> totalSize (step c (FetchFails k err)) = totalSize c
    \<and> map_of (index (step c (FetchFails k err))) k = None
    \<and> map_of (inflight (step c (FetchFails k err))) k = None"
proof -
  have same: "index (step c (FetchFails k err)) = index c"
    and size: "totalSize (step c (FetchFails k err)) = totalSize c"
    and gone: "map_of (inflight (step c (FetchFails k err))) k = None"
    using assms(2) by (simp_all add: fetch_failure_def delete_conv')
  have "map_of (index c) k = None"
    using assms(2) unfolding assms(1) by (rule reachable_inflight_absent)
  with same size gone show ?thesis
    by simp
qed

subsection \<open>A fetch that fails, from its start to its failure\<close>

lemma update_absent: "map_of al k = None \<Longrightarrow> AList.update k v al = al @ [(k, v)]"
  by (induction al) (auto split: if_splits)

lemma update_at_end: "map_of al k = None \<Longrightarrow> AList.update k v (al @ [(k, w)]) = al @ [(k, v)]"
  by (induction al) (auto split: if_splits)

lemma delete_at_end: "map_of al k = None \<Longrightarrow> AList.delete k (al @ [(k, w)]) = al"
  by (induction al) (auto split: if_splits)

lemma map_of_at_end: "map_of al k = None \<Longrightarrow> map_of (al @ [(k, w)]) k = Some w"
  by (induction al) (auto split: if_splits)

lemma run_acquisitions_on_miss:
  assumes "map_of (index c) k = None" and "map_of (inflight c) k = None" and "rs \<noteq> []"
  shows "run c (map (\<lambda>r. Acquire r k) rs) =
           c\<lparr>inflight := inflight c @ [(k, rs)], fetches := fetches c @ [k]\<rparr>"
  using assms(3)
proof (induction rs rule: rev_nonempty_induct)
  case (single r)
  show ?case
    using assms(1,2) by (simp add: run_def acquire_def update_absent)
next
  case (snoc r rs)
  have "run c (map (\<lambda>r. Acquire r k) (rs @ [r])) =
          acquire r k (run c (map (\<lambda>r. Acquire r k) rs))"
    by (simp add: run_def)
  also have "\<dots> = acquire r k (c\<lparr>inflight := inflight c @ [(k, rs)], fetches := fetches c @ [k]\<rparr>)"
    by (simp only: snoc.IH)
  also have "\<dots> = c\<lparr>inflight := inflight c @ [(k, rs @ [r])], fetches := fetches c @ [k]\<rparr>"
    using assms(1,2) by (simp add: acquire_def map_of_at_end update_at_end del: map_of_append)
  finally show ?case .
qed

lemma failed_fetch_episode:
  assumes "map_of (index c) k = None" and "map_of (inflight c) k = None" and "rs \<noteq> []"
  shows "run c (map (\<lambda>r. Acquire r k) rs @ [FetchFails k err]) =
           c\<lparr>fetches := fetches c @ [k],
             outcomes := outcomes c @ map (\<lambda>r. (r, k, GotError err)) rs\<rparr>"
proof -
  have "run c (map (\<lambda>r. Acquire r k) rs @ [FetchFails k err]) =
          fetch_failure k err (run c (map (\<lambda>r. Acquire r k) rs))"
    by (simp add: run_def)
  also have "\<dots> = fetch_failure k err
                     (c\<lparr>inflight := inflight c @ [(k, rs)], fetches := fetches c @ [k]\<rparr>)"
    by (simp only: run_acquisitions_on_miss [OF assms])
  also have "\<dots> = c\<lparr>fetches := fetches c @ [k],
                      outcomes := outcomes c @ map (\<lambda>r. (r, k, GotError err)) rs\<rparr>"
    using assms(2) by (simp add: fetch_failure_def map_of_at_end delete_at_end del: map_of_append)
  finally show ?thesis .
qed

text \<open>
  Claim C6. Take any cache state in which a key has no entry and no fetch in flight.
  When a fetch for the key is started by an acquisition, joined by any further
  acquisitions, and then fails, the cache is the state before the fetch was started
  in everything but the two logs: the index, the number of its entries, the size
  counter and the fetches in flight are what they were, and the key has no entry.
  Moreover the failing step by itself, in whatever state it happens, leaves the index
  and the size counter as they are.
\<close>

theorem failed_fetch_leaves_cache_unchanged:
  assumes "map_of (index c) k = None" and "map_of (inflight c) k = None" and "rs \<noteq> []"
  shows "run c (map (\<lambda>r. Acquire r k) rs @ [FetchFails k err]) =
           c\<lparr>fetches := fetches c @ [k],
             outcomes := outcomes c @ map (\<lambda>r. (r, k, GotError err)) rs\<rparr>
    \<and> index (run c (map (\<lambda>r. Acquire r k) rs @ [FetchFails k err])) = index c
    \<and> length (index (run c (map (\<lambda>r. Acquire r k) rs @ [FetchFails k err]))) = length (index c)
    \<and> totalSize (run c (map (\<lambda>r. Acquire r k) rs @ [FetchFails k err])) = totalSize c
    \<and> inflight (run c (map (\<lambda>r. Acquire r k) rs @ [FetchFails k err])) = inflight c
    \<and> map_of (index (run c (map (\<lambda>r. Acquire r k) rs @ [FetchFails k err]))) k = None
    \<and> (\<forall>r. index (run c [Acquire r k, FetchFails k err]) = index c
           \<and> totalSize (run c [Acquire r k, FetchFails k err]) = totalSize c)
    \<and> (\<forall>c'. index (step c' (FetchFails k err)) = index c'
           \<and> totalSize (step c' (FetchFails k err)) = totalSize c')"
proof -
  have any: "index (step c' (FetchFails k err)) = index c'
      \<and> totalSize (step c' (FetchFails k err)) = totalSize c'" for c'
    by (simp add: fetch_failure_def split: option.splits)
  have one: "index (run c [Acquire r k, FetchFails k err]) = index c
      \<and> totalSize (run c [Acquire r k, FetchFails k err]) = totalSize c" for r
    using failed_fetch_episode [OF assms(1,2), of "[r]" err] by simp
  show ?thesis
    using one any assms(1) by (simp add: failed_fetch_episode [OF assms])
qed

theorem failed_fetch_leaves_cache_unchanged_witness:
  "index (run (init 0) [Acquire 1 (''r'', ''a''), FetchSucceeds (''r'', ''a'') 10])
     = [((''r'', ''a''), \<lparr>location = ''r@a'', sizeBytes = 10, lastAccess = 0, refCount = 1\<rparr>)]
   \<and> totalSize (run (init 0) [Acquire 1 (''r'', ''a''), FetchSucceeds (''r'', ''a'') 10]) = 10
   \<and> index (run (run (init 0) [Acquire 1 (''r'', ''a''), FetchSucceeds (''r'', ''a'') 10])
        [Acquire 2 (''r'', ''b''), Acquire 3 (''r'', ''b''), FetchFails (''r'', ''b'') ''boom''])
     = [((''r'', ''a''), \<lparr>location = ''r@a'', sizeBytes = 10, lastAccess = 0, refCount = 1\<rparr>)]
   \<and> totalSize (run (run (init 0) [Acquire 1 (''r'', ''a''), FetchSucceeds (''r'', ''a'') 10])
        [Acquire 2 (''r'', ''b''), Acquire 3 (''r'', ''b''), FetchFails (''r'', ''b'') ''boom''])
     = 10"
proof -
  let ?c = "run (init 0) [Acquire 1 (''r'', ''a''), FetchSucceeds (''r'', ''a'') 10]"
  let ?ops = "[Acquire 2 (''r'', ''b''), Acquire 3 (''r'', ''b''), FetchFails (''r'', ''b'') ''boom'']"
  have r: "?c = \<lparr>index = [((''r'', ''a''),
                   \<lparr>location = ''r@a'', sizeBytes = 10, lastAccess = 0, refCount = 1\<rparr>)],
        inflight = [], totalSize = 10, maxSize = 0, clock = 1,
        fetches = [(''r'', ''a'')],
        outcomes = [(1, (''r'', ''a''), GotView ''r@a'')]\<rparr>"
    by (simp add: run_def init_def acquire_def fetch_success_def path_of_def)
  have i0: "index ?c = [((''r'', ''a''),
      \<lparr>location = ''r@a'', sizeBytes = 10, lastAccess = 0, refCount = 1\<rparr>)]"
    and s0: "totalSize ?c = 10"
    unfolding r by simp_all
  have a: "map_of (index ?c) (''r'', ''b'') = None"
    and b: "map_of (inflight ?c) (''r'', ''b'') = None"
    unfolding r by simp_all
  have n: "[2, 3 :: requester] \<noteq> []"
    by simp
  have ops: "map (\<lambda>r. Acquire r (''r'', ''b'')) [2, 3] @ [FetchFails (''r'', ''b'') ''boom''] = ?ops"
    by simp
  note t = failed_fetch_leaves_cache_unchanged [OF a b n, of "''boom''", unfolded ops]
  from t have i: "index (run ?c ?ops) = index ?c"
    by blast
  from t have s: "totalSize (run ?c ?ops) = totalSize ?c"
    by blast
  show ?thesis
    using i0 s0 i s by (simp only:)
qed


end
